theory Spec2Isabelle
  imports Main "HOL-Library.AList" "HOL-Library.Multiset"
begin

section \<open>The rule trie of Permissions.js\<close>

subsection \<open>Data model\<close>

text \<open>
  An \<open>ExpressionNode\<close> holds the character that led to it, its children (a JavaScript
  \<open>Map\<close> from one-character keys to nodes, kept here as an association list in
  insertion order with distinct keys) and the two rule flags. Every node is created
  by \<open>addExpression\<close> and owned by exactly one parent, so the object graph is a tree.
  A string is the list of its characters, one \<open>char\<close> for each unit that
  \<open>expression[i]\<close> reads; a rule type is the string the caller passes.
\<close>

datatype ExpressionNode =
  ExpressionNode (value': string) (children: "(char \<times> ExpressionNode) list")
    (allowFlag: bool) (disallowFlag: bool)

record ExpressionTree =
  root :: ExpressionNode
  DEFAULT_PERMISSION :: bool

record Permissions =
  facade_DEFAULT_PERMISSION :: bool
  trie :: ExpressionTree

text \<open>The one diagnostic the code writes with \<open>console.error\<close>.\<close>

datatype diagnostic = RuleTypeNotDefined

subsection \<open>Construction\<close>

definition new_ExpressionNode :: "string \<Rightarrow> ExpressionNode" where
  "new_ExpressionNode v = ExpressionNode v [] False False"

definition new_ExpressionTree :: "bool \<Rightarrow> ExpressionTree" where
  "new_ExpressionTree dp = \<lparr>root = new_ExpressionNode [], DEFAULT_PERMISSION = dp\<rparr>"

definition new_Permissions :: Permissions where
  "new_Permissions =
     \<lparr>facade_DEFAULT_PERMISSION = True, trie = new_ExpressionTree True\<rparr>"

subsection \<open>Insertion\<close>

text \<open>The body of \<open>if (i == expression.length - 1)\<close>: set a flag or report.\<close>

definition setRule :: "string \<Rightarrow> ExpressionNode \<Rightarrow> ExpressionNode \<times> diagnostic list" where
  "setRule ruleType currentNode =
     (if ruleType = ''allow'' then
        (ExpressionNode (value' currentNode) (children currentNode) True
           (disallowFlag currentNode), [])
      else if ruleType = ''disallow'' then
        (ExpressionNode (value' currentNode) (children currentNode)
           (allowFlag currentNode) True, [])
      else (currentNode, [RuleTypeNotDefined]))"

text \<open>
  The loop of \<open>addExpression\<close>, started at \<open>currentNode\<close> with the characters still to
  be read. The child for the next character is created when the map lacks it; it is
  the last character exactly when nothing follows it. The result is the node as the
  in-place writes leave it, with the diagnostics printed on the way.
\<close>

fun addLoop :: "string \<Rightarrow> string \<Rightarrow> ExpressionNode \<Rightarrow> ExpressionNode \<times> diagnostic list" where
  "addLoop [] ruleType currentNode = (currentNode, [])"
| "addLoop (character # rest) ruleType currentNode =
     (let child = (case map_of (children currentNode) character of
                     None \<Rightarrow> new_ExpressionNode [character]
                   | Some n \<Rightarrow> n);
          (child1, log1) = (if rest = [] then setRule ruleType child else (child, []));
          (child2, log2) = addLoop rest ruleType child1
      in (ExpressionNode (value' currentNode)
            (AList.update character child2 (children currentNode))
            (allowFlag currentNode) (disallowFlag currentNode),
          log1 @ log2))"

definition addExpression ::
  "ExpressionTree \<Rightarrow> string \<Rightarrow> string \<Rightarrow> ExpressionTree \<times> diagnostic list" where
  "addExpression t expression ruleType =
     (let (r, log) = addLoop expression ruleType (root t) in (t\<lparr>root := r\<rparr>, log))"

subsection \<open>Evaluation\<close>

text \<open>The second loop of the wildcard branch: the first verdict that is not the default.\<close>

fun scanVeredicts :: "bool \<Rightarrow> bool list \<Rightarrow> bool \<Rightarrow> bool" where
  "scanVeredicts dp [] newVeredict = newVeredict"
| "scanVeredicts dp (b # bs) newVeredict =
     (if b \<noteq> dp then b else scanVeredicts dp bs newVeredict)"

lemma alist_child_size:
  "map_of kvs c = Some n \<Longrightarrow> size n < Suc (size_list (size_prod (\<lambda>_. 0) size) kvs)"
  by (induction kvs) (auto split: if_splits)

lemma child_size: "map_of (children node) c = Some n \<Longrightarrow> size n < size node"
  by (cases node) (auto dest: alist_child_size)

text \<open>
  \<open>__evaluateExpression\<close>; \<open>dp\<close> is \<open>this.DEFAULT_PERMISSION\<close>. The inner option is the
  anchor check, which returns early when it yields a value.
\<close>

function evaluateExpression_aux :: "bool \<Rightarrow> string \<Rightarrow> ExpressionNode \<Rightarrow> bool \<Rightarrow> bool" where
  "evaluateExpression_aux dp expression node currentVeredict =
     (case (case map_of (children node) CHR ''$'' of
              None \<Rightarrow> None
            | Some endOfLineNode \<Rightarrow>
                if allowFlag endOfLineNode \<and> expression = [] then Some True
                else if disallowFlag endOfLineNode \<and> expression = [] then Some False
                else None) of
        Some b \<Rightarrow> b
      | None \<Rightarrow>
          if expression = [] then
            (if dp then (if disallowFlag node then False else currentVeredict)
             else (if allowFlag node then True else currentVeredict))
          else
            (let newVeredict0 = (if disallowFlag node then False else currentVeredict);
                 newVeredict1 = (if allowFlag node then True else newVeredict0);
                 newVeredict2 =
                   (case map_of (children node) CHR ''*'' of
                      None \<Rightarrow> newVeredict1
                    | Some wildcardStartNode \<Rightarrow>
                        scanVeredicts dp
                          (map (\<lambda>i. evaluateExpression_aux dp (drop i expression)
                                       wildcardStartNode newVeredict1)
                               [0..<length expression])
                          newVeredict1)
             in (case map_of (children node) (hd expression) of
                   Some child \<Rightarrow> evaluateExpression_aux dp (tl expression) child newVeredict2
                 | None \<Rightarrow> newVeredict2)))"
  by pat_completeness auto

termination
  by (relation "measure (\<lambda>(dp, expression, node, currentVeredict). size node)")
     (auto dest: child_size)

declare evaluateExpression_aux.simps [simp del]

definition evaluateExpression :: "ExpressionTree \<Rightarrow> string \<Rightarrow> bool" where
  "evaluateExpression t expression =
     evaluateExpression_aux (DEFAULT_PERMISSION t) expression (root t) (DEFAULT_PERMISSION t)"

subsection \<open>Facade\<close>

definition addPath :: "Permissions \<Rightarrow> string \<Rightarrow> string \<Rightarrow> Permissions \<times> diagnostic list" where
  "addPath p path ruleType =
     (let (t, log) = addExpression (trie p) path ruleType in (p\<lparr>trie := t\<rparr>, log))"

definition isAllowed :: "Permissions \<Rightarrow> string \<Rightarrow> bool" where
  "isAllowed p path = evaluateExpression (trie p) path"


subsection \<open>Sequences of calls\<close>

text \<open>Insertions made one after the other on a matcher, diagnostics dropped.\<close>

fun insertAll :: "ExpressionTree \<Rightarrow> (string \<times> string) list \<Rightarrow> ExpressionTree" where
  "insertAll t [] = t"
| "insertAll t ((expression, ruleType) # ops) =
     insertAll (fst (addExpression t expression ruleType)) ops"

fun addPaths :: "Permissions \<Rightarrow> (string \<times> string) list \<Rightarrow> Permissions" where
  "addPaths p [] = p"
| "addPaths p ((path, ruleType) # ops) = addPaths (fst (addPath p path ruleType)) ops"

text \<open>
  A call of the facade and what it does to the instance: \<open>addPath\<close> returns nothing
  and leaves the updated instance, \<open>isAllowed\<close> returns a boolean and, having no
  assignment in its body or in \<open>__evaluateExpression\<close>, leaves the instance as it was.
\<close>

datatype call = AddPath string string | IsAllowed string

fun perform :: "Permissions \<Rightarrow> call \<Rightarrow> Permissions \<times> bool option" where
  "perform p (AddPath path ruleType) = (fst (addPath p path ruleType), None)"
| "perform p (IsAllowed path) = (p, Some (isAllowed p path))"

fun run :: "Permissions \<Rightarrow> call list \<Rightarrow> Permissions \<times> bool option list" where
  "run p [] = (p, [])"
| "run p (c # cs) =
     (let (p1, r) = perform p c; (p2, rs) = run p1 cs in (p2, r # rs))"

fun isAddPath :: "call \<Rightarrow> bool" where
  "isAddPath (AddPath path ruleType) = True"
| "isAddPath (IsAllowed path) = False"

subsection \<open>Reading the trie\<close>

text \<open>The node reached from \<open>n\<close> along the characters of a string, when there is one.\<close>

fun nodeAt :: "ExpressionNode \<Rightarrow> string \<Rightarrow> ExpressionNode option" where
  "nodeAt n [] = Some n"
| "nodeAt n (c # cs) =
     (case map_of (children n) c of None \<Rightarrow> None | Some ch \<Rightarrow> nodeAt ch cs)"

text \<open>
  The pair \<open>(allowFlag, disallowFlag)\<close> of the node reached along a string; both are
  \<open>False\<close> where the trie has no such node.
\<close>

fun flagsAt :: "ExpressionNode \<Rightarrow> string \<Rightarrow> bool \<times> bool" where
  "flagsAt n [] = (allowFlag n, disallowFlag n)"
| "flagsAt n (c # cs) =
     (case map_of (children n) c of None \<Rightarrow> (False, False) | Some ch \<Rightarrow> flagsAt ch cs)"

definition flagless :: "ExpressionNode \<Rightarrow> bool" where
  "flagless n = (\<forall>q. flagsAt n q = (False, False))"

text \<open>The child under a key, or the node \<open>addExpression\<close> would create there.\<close>

definition childOrNew :: "ExpressionNode \<Rightarrow> char \<Rightarrow> ExpressionNode" where
  "childOrNew n c =
     (case map_of (children n) c of None \<Rightarrow> new_ExpressionNode [c] | Some ch \<Rightarrow> ch)"

definition ruleUpd :: "string \<Rightarrow> bool \<times> bool \<Rightarrow> bool \<times> bool" where
  "ruleUpd rt f = (fst f \<or> rt = ''allow'', snd f \<or> rt = ''disallow'')"

subsection \<open>The step of the specification\<close>

text \<open>
  Steps 3 to 6 of the evaluation as the specification words them (flag fold, wildcard
  branch, literal branch, fall-through), with the start offsets of the wildcard branch
  left as a parameter; the recursive calls are those of the code. The specification
  takes the offsets \<open>0\<close> to \<open>len(remainingPath)\<close> inclusive; with the offsets below
  \<open>len(remainingPath)\<close> the step is the one the code makes (\<open>aux_step\<close>).
\<close>

definition evaluateStep_spec ::
  "nat list \<Rightarrow> bool \<Rightarrow> string \<Rightarrow> ExpressionNode \<Rightarrow> bool \<Rightarrow> bool" where
  "evaluateStep_spec offsets defaultPermission remainingPath currentNode runningVerdict =
     (let rv0 = (if disallowFlag currentNode then False else runningVerdict);
          rv1 = (if allowFlag currentNode then True else rv0);
          rv2 = (case map_of (children currentNode) CHR ''*'' of
                   None \<Rightarrow> rv1
                 | Some wildcardChild \<Rightarrow>
                     (case find (\<lambda>b. b \<noteq> defaultPermission)
                             (map (\<lambda>i. evaluateExpression_aux defaultPermission
                                          (drop i remainingPath) wildcardChild rv1)
                                  offsets) of
                        None \<Rightarrow> rv1
                      | Some b \<Rightarrow> b))
      in case map_of (children currentNode) (hd remainingPath) of
           Some literalChild \<Rightarrow>
             evaluateExpression_aux defaultPermission (tl remainingPath) literalChild rv2
         | None \<Rightarrow> rv2)"

section \<open>Properties\<close>

subsection \<open>Unfolding the evaluation\<close>

lemma aux_Nil:
  "evaluateExpression_aux dp [] n v =
     (let base = (if dp then (if disallowFlag n then False else v)
                  else (if allowFlag n then True else v))
      in case map_of (children n) CHR ''$'' of
           None \<Rightarrow> base
         | Some d \<Rightarrow> if allowFlag d then True else if disallowFlag d then False else base)"
  by (subst evaluateExpression_aux.simps) (simp split: option.split)

lemma aux_Cons:
  "evaluateExpression_aux dp (c # cs) n v =
     (let nv1 = (if allowFlag n then True else if disallowFlag n then False else v);
          nv2 = (case map_of (children n) CHR ''*'' of
                   None \<Rightarrow> nv1
                 | Some w \<Rightarrow>
                     scanVeredicts dp
                       (map (\<lambda>i. evaluateExpression_aux dp (drop i (c # cs)) w nv1)
                            [0..<Suc (length cs)])
                       nv1)
      in case map_of (children n) c of
           Some ch \<Rightarrow> evaluateExpression_aux dp cs ch nv2
         | None \<Rightarrow> nv2)"
  by (subst evaluateExpression_aux.simps) (simp split: option.split add: Let_def)

lemma flagless_top: "flagless n \<Longrightarrow> \<not> allowFlag n \<and> \<not> disallowFlag n"
  unfolding flagless_def by (metis flagsAt.simps(1) prod.inject)

lemma flagless_child: "flagless n \<Longrightarrow> map_of (children n) c = Some ch \<Longrightarrow> flagless ch"
  unfolding flagless_def
proof
  fix q assume a: "\<forall>q. flagsAt n q = (False, False)" and b: "map_of (children n) c = Some ch"
  from a have "flagsAt n (c # q) = (False, False)" by blast
  with b show "flagsAt ch q = (False, False)" by simp
qed

lemma scanVeredicts_const: "(\<forall>b \<in> set bs. b = v) \<Longrightarrow> scanVeredicts dp bs v = v"
  by (induction bs) auto

lemma flagless_eval: "flagless n \<Longrightarrow> evaluateExpression_aux dp e n v = v"
proof (induction "size n" arbitrary: n e v rule: less_induct)
  case less
  note top = flagless_top [OF less.prems]
  have kid: "\<And>c ch e v. map_of (children n) c = Some ch \<Longrightarrow> evaluateExpression_aux dp e ch v = v"
    using less.hyps child_size flagless_child [OF less.prems] by blast
  show ?case
  proof (cases e)
    case Nil
    show ?thesis
      using top flagless_top [OF flagless_child [OF less.prems]]
      by (auto simp: Nil aux_Nil split: option.split)
  next
    case (Cons c cs)
    show ?thesis
      unfolding Cons aux_Cons using top
      by (auto simp: kid scanVeredicts_const Let_def split: option.split)
  qed
qed


lemma flagsAt_new: "flagsAt (new_ExpressionNode s) q = (False, False)"
  by (cases q) (simp_all add: new_ExpressionNode_def)

lemma flagless_new: "flagless (new_ExpressionNode s)"
  by (simp add: flagless_def flagsAt_new)

lemma flagsAt_childOrNew: "flagsAt (childOrNew n c) q = flagsAt n (c # q)"
  by (simp add: childOrNew_def flagsAt_new split: option.split)

lemma aux_childOrNew:
  "evaluateExpression_aux dp e (childOrNew n c) v =
     (case map_of (children n) c of None \<Rightarrow> v | Some ch \<Rightarrow> evaluateExpression_aux dp e ch v)"
  by (simp add: childOrNew_def flagless_eval flagless_new split: option.split)

lemma aux_Nil_flags:
  "evaluateExpression_aux dp [] n v =
     (if fst (flagsAt n ''$'') then True
      else if snd (flagsAt n ''$'') then False
      else if dp then (if disallowFlag n then False else v)
      else (if allowFlag n then True else v))"
  by (simp add: aux_Nil split: option.split)

lemma aux_Cons_childOrNew:
  "evaluateExpression_aux dp (c # cs) n v =
     (let nv1 = (if allowFlag n then True else if disallowFlag n then False else v);
          nv2 = scanVeredicts dp
                  (map (\<lambda>i. evaluateExpression_aux dp (drop i (c # cs)) (childOrNew n CHR ''*'') nv1)
                       [0..<Suc (length cs)])
                  nv1
      in evaluateExpression_aux dp cs (childOrNew n c) nv2)"
  unfolding aux_Cons [of dp c cs n v] aux_childOrNew Let_def
  by (simp add: scanVeredicts_const split: option.split)

lemma eval_flagsAt_cong:
  "(\<forall>q. flagsAt n1 q = flagsAt n2 q) \<Longrightarrow>
   evaluateExpression_aux dp e n1 v = evaluateExpression_aux dp e n2 v"
proof (induction "size n1" arbitrary: n1 n2 e v rule: less_induct)
  case less
  have top: "allowFlag n1 = allowFlag n2" "disallowFlag n1 = disallowFlag n2"
    using less.prems [rule_format, of "[]"] by simp_all
  have kid: "evaluateExpression_aux dp e' (childOrNew n1 c) v' = evaluateExpression_aux dp e' (childOrNew n2 c) v'"
    for c e' v'
  proof (cases "map_of (children n1) c")
    case None
    then have "\<forall>q. flagsAt n2 (c # q) = (False, False)"
      using less.prems by (metis flagsAt.simps(2) option.simps(4))
    then have "flagless (childOrNew n2 c)"
      by (simp add: flagless_def flagsAt_childOrNew)
    moreover have "flagless (childOrNew n1 c)"
      using None by (simp add: childOrNew_def flagless_new)
    ultimately show ?thesis by (simp add: flagless_eval)
  next
    case (Some ch)
    then have "size ch < size n1" by (rule child_size)
    moreover have "\<forall>q. flagsAt ch q = flagsAt (childOrNew n2 c) q"
      using less.prems [rule_format, of "c # q" for q] Some by (simp add: flagsAt_childOrNew)
    ultimately have "evaluateExpression_aux dp e' ch v' = evaluateExpression_aux dp e' (childOrNew n2 c) v'"
      by (rule less.hyps)
    then show ?thesis using Some by (simp add: childOrNew_def)
  qed
  show ?case
  proof (cases e)
    case Nil
    have d: "flagsAt n1 ''$'' = flagsAt n2 ''$''"
      using less.prems by blast
    show ?thesis unfolding Nil aux_Nil_flags d top by (rule refl)
  next
    case (Cons c cs)
    show ?thesis unfolding Cons aux_Cons_childOrNew using top by (simp add: kid)
  qed
qed

lemma addLoop_top:
  "allowFlag (fst (addLoop p rt n)) = allowFlag n"
  "disallowFlag (fst (addLoop p rt n)) = disallowFlag n"
  "value' (fst (addLoop p rt n)) = value' n"
  by (cases p; simp add: Let_def split: prod.split)+

lemma addLoop_children:
  "map_of (children (fst (addLoop (c # cs) rt n))) =
     (map_of (children n))
       (c \<mapsto> fst (addLoop cs rt (if cs = [] then fst (setRule rt (childOrNew n c)) else childOrNew n c)))"
  by (auto simp: Let_def childOrNew_def update_conv' split: prod.split option.split)

lemma setRule_flags:
  "allowFlag (fst (setRule rt n)) = (allowFlag n \<or> rt = ''allow'')"
  "disallowFlag (fst (setRule rt n)) = (disallowFlag n \<or> rt = ''disallow'')"
  "children (fst (setRule rt n)) = children n"
  "value' (fst (setRule rt n)) = value' n"
  by (auto simp: setRule_def)

lemma flagsAt_setRule:
  "flagsAt (fst (setRule rt n)) q = (if q = [] then ruleUpd rt (flagsAt n q) else flagsAt n q)"
  by (cases q) (auto simp: setRule_def ruleUpd_def)

lemma childOrNew_addLoop:
  "childOrNew (fst (addLoop (c # cs) rt n)) c' =
     (if c' = c
      then fst (addLoop cs rt (if cs = [] then fst (setRule rt (childOrNew n c)) else childOrNew n c))
      else childOrNew n c')"
  unfolding childOrNew_def [of "fst (addLoop (c # cs) rt n)"] addLoop_children
  by (simp add: childOrNew_def)

lemma flagsAt_addLoop:
  "flagsAt (fst (addLoop p rt n)) q =
     (if p \<noteq> [] \<and> q = p then ruleUpd rt (flagsAt n q) else flagsAt n q)"
proof (induction p arbitrary: n q)
  case Nil
  show ?case by simp
next
  case (Cons c cs)
  show ?case
  proof (cases q)
    case Nil
    then show ?thesis by (simp add: addLoop_top del: addLoop.simps)
  next
    case (Cons c' qs)
    have "flagsAt (fst (addLoop (c # cs) rt n)) (c' # qs) =
            (if c' = c \<and> qs = cs then ruleUpd rt (flagsAt (childOrNew n c') qs)
             else flagsAt (childOrNew n c') qs)"
      unfolding flagsAt_childOrNew [symmetric] childOrNew_addLoop
      by (simp add: flagsAt_setRule Cons.IH setRule_flags ruleUpd_def)
    then show ?thesis
      unfolding Cons flagsAt_childOrNew by simp
  qed
qed


subsection \<open>Sequences of insertions\<close>

lemma addExpression_fst:
  "root (fst (addExpression t p rt)) = fst (addLoop p rt (root t))"
  "DEFAULT_PERMISSION (fst (addExpression t p rt)) = DEFAULT_PERMISSION t"
  by (simp_all add: addExpression_def split: prod.split)

lemma addPath_fst:
  "trie (fst (addPath P p rt)) = fst (addExpression (trie P) p rt)"
  "facade_DEFAULT_PERMISSION (fst (addPath P p rt)) = facade_DEFAULT_PERMISSION P"
  by (simp_all add: addPath_def split: prod.split)

lemma DEFAULT_PERMISSION_insertAll:
  "DEFAULT_PERMISSION (insertAll t ops) = DEFAULT_PERMISSION t"
  by (induction t ops rule: insertAll.induct) (simp_all add: addExpression_fst)

lemma flagsAt_insertAll:
  "flagsAt (root (insertAll t ops)) q =
     (fst (flagsAt (root t) q) \<or> (q \<noteq> [] \<and> (q, ''allow'') \<in> set ops),
      snd (flagsAt (root t) q) \<or> (q \<noteq> [] \<and> (q, ''disallow'') \<in> set ops))"
proof (induction t ops rule: insertAll.induct)
  case (1 t)
  show ?case by simp
next
  case (2 t expression ruleType ops)
  show ?case
    unfolding insertAll.simps "2.IH" addExpression_fst flagsAt_addLoop
    by (auto simp: ruleUpd_def)
qed

lemma trie_addPaths:
  "trie (addPaths P ops) = insertAll (trie P) ops"
  by (induction P ops rule: addPaths.induct) (simp_all add: addPath_fst)

lemma facade_DEFAULT_PERMISSION_addPaths:
  "facade_DEFAULT_PERMISSION (addPaths P ops) = facade_DEFAULT_PERMISSION P"
  by (induction P ops rule: addPaths.induct) (simp_all add: addPath_fst)

lemma eval_tree_cong:
  "DEFAULT_PERMISSION t1 = DEFAULT_PERMISSION t2 \<Longrightarrow>
   (\<forall>q. flagsAt (root t1) q = flagsAt (root t2) q) \<Longrightarrow>
   evaluateExpression t1 e = evaluateExpression t2 e"
  unfolding evaluateExpression_def by (simp add: eval_flagsAt_cong)

subsection \<open>The wildcard scan and termination\<close>

lemma scanVeredicts_find:
  "scanVeredicts dp bs v = (case find (\<lambda>b. b \<noteq> dp) bs of None \<Rightarrow> v | Some b \<Rightarrow> b)"
  by (induction bs) simp_all

lemma aux_step:
  "r \<noteq> [] \<Longrightarrow>
   evaluateExpression_aux dp r n v = evaluateStep_spec [0..<length r] dp r n v"
  by (cases r) (simp_all add: aux_Cons evaluateStep_spec_def scanVeredicts_find Let_def
       del: upt_Suc split: option.split)

lemma dom_all: "evaluateExpression_aux_dom x"
proof -
  have "All evaluateExpression_aux_dom"
    by (relation "measure (\<lambda>(dp, expression, node, currentVeredict). size node)")
       (auto dest: child_size)
  then show ?thesis by blast
qed

subsection \<open>Nodes and diagnostics of an insertion\<close>

lemma flagsAt_nodeAt:
  "flagsAt n q =
     (case nodeAt n q of None \<Rightarrow> (False, False) | Some m \<Rightarrow> (allowFlag m, disallowFlag m))"
  by (induction n q rule: nodeAt.induct) (simp_all split: option.split)

lemma snd_addLoop:
  "p \<noteq> [] \<Longrightarrow>
   snd (addLoop p rt n) =
     (if rt = ''allow'' \<or> rt = ''disallow'' then [] else [RuleTypeNotDefined])"
proof (induction p arbitrary: n)
  case Nil
  then show ?case by simp
next
  case (Cons c cs)
  show ?case
  proof (cases "cs = []")
    case True
    then show ?thesis by (simp add: setRule_def Let_def split: prod.split)
  next
    case False
    from Cons.IH [OF False] show ?thesis
      using False by (simp add: Let_def split: prod.split) (metis snd_conv)
  qed
qed

lemma nodeAt_addLoop:
  "k \<le> length p \<Longrightarrow> nodeAt (fst (addLoop p rt n)) (take k p) \<noteq> None"
proof (induction p arbitrary: n k)
  case Nil
  then show ?case by simp
next
  case (Cons c cs)
  show ?case
  proof (cases k)
    case 0
    then show ?thesis by simp
  next
    case (Suc j)
    with Cons.prems have "j \<le> length cs" by simp
    then show ?thesis
      unfolding Suc take_Suc_Cons nodeAt.simps addLoop_children
      by (simp add: Cons.IH)
  qed
qed

subsection \<open>Runs of facade calls\<close>

lemma run_append:
  "run P (xs @ ys) =
     (fst (run (fst (run P xs)) ys), snd (run P xs) @ snd (run (fst (run P xs)) ys))"
  by (induction xs arbitrary: P) (simp_all add: Let_def split: prod.split)

lemma run_queries:
  "run P (map IsAllowed paths) = (P, map (\<lambda>q. Some (isAllowed P q)) paths)"
  by (induction paths) simp_all

lemma fst_run_Cons: "fst (run P (c # cs)) = fst (run (fst (perform P c)) cs)"
  by (simp add: Let_def split: prod.split)

lemma run_filter: "fst (run P calls) = fst (run P (filter isAddPath calls))"
proof (induction calls arbitrary: P)
  case Nil
  show ?case by simp
next
  case (Cons c cs)
  show ?case
  proof (cases c)
    case (AddPath path ruleType)
    then show ?thesis
      using Cons.IH [of "fst (perform P c)"] by (simp add: fst_run_Cons del: run.simps)
  next
    case (IsAllowed path)
    then show ?thesis
      using Cons.IH [of P] by (simp add: fst_run_Cons del: run.simps)
  qed
qed

lemma snd_addExpression:
  "snd (addExpression t p rt) = snd (addLoop p rt (root t))"
  by (simp add: addExpression_def split: prod.split)

lemma snd_addPath:
  "snd (addPath P p rt) = snd (addExpression (trie P) p rt)"
  by (simp add: addPath_def split: prod.split)

section \<open>Claims\<close>

subsection \<open>The facade's default\<close>

text \<open>
  Claim C10. The facade fixes the default permission to \<open>True\<close>: a freshly constructed
  \<open>Permissions\<close> instance, with no \<open>addPath\<close> call made, answers \<open>True\<close> to
  \<open>isAllowed\<close> for every string, both copies of the default are \<open>True\<close>, and no
  sequence of \<open>addPath\<close> calls changes either copy.
\<close>

theorem fresh_Permissions_allows_everything:
  "isAllowed new_Permissions p = True
   \<and> facade_DEFAULT_PERMISSION new_Permissions = True
   \<and> DEFAULT_PERMISSION (trie new_Permissions) = True
   \<and> facade_DEFAULT_PERMISSION (addPaths P ops) = facade_DEFAULT_PERMISSION P
   \<and> DEFAULT_PERMISSION (trie (addPaths P ops)) = DEFAULT_PERMISSION (trie P)"
  by (simp add: isAllowed_def evaluateExpression_def new_Permissions_def
        new_ExpressionTree_def flagless_eval flagless_new
        facade_DEFAULT_PERMISSION_addPaths trie_addPaths DEFAULT_PERMISSION_insertAll)

subsection \<open>Longest match at an exactly matched path\<close>

text \<open>
  Claim C1, evaluated on the code. After \<open>disallow("/a")\<close> and then
  \<open>allow("/a/b")\<close>, the path \<open>/a/x\<close> is refused under both defaults, but the path
  \<open>/a/b\<close> is allowed only under the default \<open>False\<close>: under the default \<open>True\<close> (the
  one the facade uses) the base case of the evaluation reads only \<open>disallowFlag\<close> of the
  last node and hands back the verdict inherited from \<open>/a\<close>, so the answer is \<open>False\<close>.
  One character further (\<open>/a/b/c\<close>) the flags of the node are folded in and the answer
  is \<open>True\<close>.
\<close>

theorem longest_match_exact_path_default_true:
  "isAllowed (addPaths new_Permissions [(''/a'', ''disallow''), (''/a/b'', ''allow'')]) ''/a/b''
     = False
   \<and> evaluateExpression
       (insertAll (new_ExpressionTree True) [(''/a'', ''disallow''), (''/a/b'', ''allow'')])
       ''/a/b'' = False
   \<and> evaluateExpression
       (insertAll (new_ExpressionTree False) [(''/a'', ''disallow''), (''/a/b'', ''allow'')])
       ''/a/b'' = True
   \<and> evaluateExpression
       (insertAll (new_ExpressionTree True) [(''/a'', ''disallow''), (''/a/b'', ''allow'')])
       ''/a/x'' = False
   \<and> evaluateExpression
       (insertAll (new_ExpressionTree False) [(''/a'', ''disallow''), (''/a/b'', ''allow'')])
       ''/a/x'' = False
   \<and> evaluateExpression
       (insertAll (new_ExpressionTree True) [(''/a'', ''disallow''), (''/a/b'', ''allow'')])
       ''/a/b/c'' = True"
  by code_simp

subsection \<open>Both flags on one node\<close>

text \<open>
  Claim C2, evaluated on the code. With the pattern \<open>/a\<close> inserted both as allow and
  as disallow, in either order, \<open>isAllowed("/a")\<close> is \<open>False\<close> under the default \<open>True\<close>
  and \<open>True\<close> under the default \<open>False\<close>: at the end of the path the base case lets the
  flag that disagrees with the default win, where the flag fold one character earlier
  (\<open>/ab\<close>) lets allow win.
\<close>

theorem equal_specificity_tie_default_true:
  "isAllowed (addPaths new_Permissions [(''/a'', ''allow''), (''/a'', ''disallow'')]) ''/a''
     = False
   \<and> isAllowed (addPaths new_Permissions [(''/a'', ''disallow''), (''/a'', ''allow'')]) ''/a''
     = False
   \<and> evaluateExpression
       (insertAll (new_ExpressionTree True) [(''/a'', ''allow''), (''/a'', ''disallow'')])
       ''/a'' = False
   \<and> evaluateExpression
       (insertAll (new_ExpressionTree False) [(''/a'', ''allow''), (''/a'', ''disallow'')])
       ''/a'' = True
   \<and> evaluateExpression
       (insertAll (new_ExpressionTree True) [(''/a'', ''allow''), (''/a'', ''disallow'')])
       ''/ab'' = True"
  by code_simp


subsection \<open>The wildcard branch\<close>

text \<open>
  Claim C3, evaluated on the code. The claim has the wildcard branch try the suffix at
  every offset from \<open>0\<close> to \<open>len(r)\<close> inclusive, the empty suffix among them, as the
  comment of the loop says (``trying all prefixes''). The loop runs while
  \<open>i < expression.length\<close> and so never lets the wildcard take the whole remainder. With
  the single rule \<open>disallow("/a*$")\<close> on a new \<open>Permissions\<close> instance, \<open>isAllowed("/ab")\<close>
  and \<open>isAllowed("/axyz")\<close> are \<open>True\<close>: at the node \<open>/a\<close> of that trie, with \<open>b\<close>
  remaining, the code gives \<open>True\<close>, where the step with the offsets of the claim gives
  \<open>False\<close> (the empty suffix meets the flagged \<open>$\<close> child of the wildcard node). The
  literal branch does pass the empty remainder on to the anchor: after
  \<open>disallow("/a$")\<close>, \<open>isAllowed("/a")\<close> is \<open>False\<close>.
\<close>

theorem wildcard_skips_whole_remainder:
  "isAllowed (addPaths new_Permissions [(''/a*$'', ''disallow'')]) ''/ab'' = True
   \<and> isAllowed (addPaths new_Permissions [(''/a*$'', ''disallow'')]) ''/axyz'' = True
   \<and> isAllowed (addPaths new_Permissions [(''/a$'', ''disallow'')]) ''/a'' = False
   \<and> nodeAt (root (trie (addPaths new_Permissions [(''/a*$'', ''disallow'')]))) ''/a''
     = Some (ExpressionNode ''a''
        [(CHR ''*'',
          ExpressionNode ''*'' [(CHR ''$'', ExpressionNode ''$'' [] False True)] False False)]
        False False)
   \<and> evaluateExpression_aux True ''b''
       (ExpressionNode ''a''
          [(CHR ''*'',
            ExpressionNode ''*'' [(CHR ''$'', ExpressionNode ''$'' [] False True)] False False)]
          False False)
       True = True
   \<and> evaluateStep_spec [0..<Suc (length ''b'')] True ''b''
       (ExpressionNode ''a''
          [(CHR ''*'',
            ExpressionNode ''*'' [(CHR ''$'', ExpressionNode ''$'' [] False True)] False False)]
          False False)
       True = False"
  by code_simp

subsection \<open>Termination\<close>

text \<open>
  Claim C4. The recursion of \<open>__evaluateExpression\<close> terminates on every default, path
  (the empty one included), node and verdict, in particular from the root of a trie
  built by any sequence of insertions, so \<open>evaluateExpression\<close> and \<open>isAllowed\<close>
  return a boolean there; there is no failure path. Every recursive call is made with a non-empty path and goes into a
  child of the current node, a strictly smaller tree: the literal call into the child
  for the first character with a strictly shorter path, a wildcard call into the \<open>*\<close>
  child with a suffix of the path.
\<close>

theorem evaluation_total:
  "evaluateExpression_aux_dom
     (DEFAULT_PERMISSION (insertAll t ops), path, root (insertAll t ops),
      DEFAULT_PERMISSION (insertAll t ops))
   \<and> evaluateExpression_aux_dom (dp, expression, node, currentVeredict)
   \<and> (\<forall>dp' e' n' v'.
        evaluateExpression_aux_rel (dp', e', n', v') (dp, expression, node, currentVeredict) \<longrightarrow>
          dp' = dp \<and> expression \<noteq> [] \<and> size n' < size node
          \<and> ((e' = tl expression \<and> length e' < length expression
               \<and> map_of (children node) (hd expression) = Some n')
              \<or> (map_of (children node) CHR ''*'' = Some n'
                  \<and> (\<exists>i<length expression. e' = drop i expression))))"
  (is "?B \<and> ?D \<and> (\<forall>dp' e' n' v'. ?H dp' e' n' v' \<longrightarrow> ?C dp' e' n' v')")
proof (intro conjI)
  show ?B by (rule dom_all)
next
  show ?D by (rule dom_all)
next
  show "\<forall>dp' e' n' v'. ?H dp' e' n' v' \<longrightarrow> ?C dp' e' n' v'"
  proof (intro allI, rule impI)
    fix dp' e' n' v'
    assume "?H dp' e' n' v'"
    then show "?C dp' e' n' v'"
      by (cases rule: evaluateExpression_aux_rel.cases) (auto dest: child_size)
  qed
qed

theorem evaluation_total_witness:
  "evaluateExpression_aux_dom
     (True, ''b'',
      ExpressionNode ''a''
        [(CHR ''*'',
          ExpressionNode ''*'' [(CHR ''$'', ExpressionNode ''$'' [] False True)] False False)]
        False False,
      True)
   \<and> evaluateExpression_aux_rel
       (True, ''b'',
        ExpressionNode ''*'' [(CHR ''$'', ExpressionNode ''$'' [] False True)] False False,
        True)
       (True, ''b'',
        ExpressionNode ''a''
          [(CHR ''*'',
            ExpressionNode ''*'' [(CHR ''$'', ExpressionNode ''$'' [] False True)] False False)]
          False False,
        True)
   \<and> size (ExpressionNode ''*'' [(CHR ''$'', ExpressionNode ''$'' [] False True)] False False)
       < size (ExpressionNode ''a''
          [(CHR ''*'',
            ExpressionNode ''*'' [(CHR ''$'', ExpressionNode ''$'' [] False True)] False False)]
          False False)"
proof -
  let ?w = "ExpressionNode ''*'' [(CHR ''$'', ExpressionNode ''$'' [] False True)] False False"
  let ?n = "ExpressionNode ''a'' [(CHR ''*'', ?w)] False False"
  have "evaluateExpression_aux_rel (True, drop 0 ''b'', ?w, True) (True, ''b'', ?n, True)"
    by (rule evaluateExpression_aux_rel.intros(1)
          [where node = "?n" and expression = "''b''" and xb = 0 and x = True and xa = True])
       simp_all
  then have h: "evaluateExpression_aux_rel (True, ''b'', ?w, True) (True, ''b'', ?n, True)"
    by simp
  from evaluation_total [of _ _ _ True "''b''" ?n True] h show ?thesis
    by blast
qed


subsection \<open>The anchor\<close>

text \<open>
  Claim C5. Under either default, on the matcher where exactly \<open>disallow("/a$")\<close> has
  been inserted, \<open>/a\<close> is refused and \<open>/ab\<close> gets the default. The anchor check comes
  before every other step: on an empty remaining path, at any node with any running
  verdict and default, a \<open>$\<close> child with \<open>allowFlag\<close> set gives \<open>True\<close> at once, and one
  with only \<open>disallowFlag\<close> set gives \<open>False\<close> at once.
\<close>

theorem anchor_exactness:
  "evaluateExpression (insertAll (new_ExpressionTree dp) [(''/a$'', ''disallow'')]) ''/a''
     = False
   \<and> evaluateExpression (insertAll (new_ExpressionTree dp) [(''/a$'', ''disallow'')]) ''/ab''
     = dp
   \<and> (map_of (children node) CHR ''$'' = Some endOfLineNode \<longrightarrow>
        allowFlag endOfLineNode \<longrightarrow>
        evaluateExpression_aux dp' [] node currentVeredict = True)
   \<and> (map_of (children node) CHR ''$'' = Some endOfLineNode \<longrightarrow>
        \<not> allowFlag endOfLineNode \<longrightarrow> disallowFlag endOfLineNode \<longrightarrow>
        evaluateExpression_aux dp' [] node currentVeredict = False)"
proof (intro conjI)
  show "evaluateExpression (insertAll (new_ExpressionTree dp) [(''/a$'', ''disallow'')]) ''/a''
     = False"
    by (simp add: evaluateExpression_def new_ExpressionTree_def new_ExpressionNode_def
          addExpression_def setRule_def aux_Nil aux_Cons)
  show "evaluateExpression (insertAll (new_ExpressionTree dp) [(''/a$'', ''disallow'')]) ''/ab''
     = dp"
    by (simp add: evaluateExpression_def new_ExpressionTree_def new_ExpressionNode_def
          addExpression_def setRule_def aux_Nil aux_Cons)
  show "map_of (children node) CHR ''$'' = Some endOfLineNode \<longrightarrow>
        allowFlag endOfLineNode \<longrightarrow>
        evaluateExpression_aux dp' [] node currentVeredict = True"
    by (simp add: aux_Nil)
  show "map_of (children node) CHR ''$'' = Some endOfLineNode \<longrightarrow>
        \<not> allowFlag endOfLineNode \<longrightarrow> disallowFlag endOfLineNode \<longrightarrow>
        evaluateExpression_aux dp' [] node currentVeredict = False"
    by (simp add: aux_Nil)
qed

theorem anchor_exactness_witness:
  "map_of (children (ExpressionNode ''a'' [(CHR ''$'', ExpressionNode ''$'' [] False True)]
                       False False)) CHR ''$''
     = Some (ExpressionNode ''$'' [] False True)
   \<and> \<not> allowFlag (ExpressionNode ''$'' [] False True)
   \<and> disallowFlag (ExpressionNode ''$'' [] False True)
   \<and> evaluateExpression_aux True []
       (ExpressionNode ''a'' [(CHR ''$'', ExpressionNode ''$'' [] False True)] False False)
       True = False
   \<and> map_of (children (ExpressionNode ''a'' [(CHR ''$'', ExpressionNode ''$'' [] True False)]
                       False True)) CHR ''$''
     = Some (ExpressionNode ''$'' [] True False)
   \<and> allowFlag (ExpressionNode ''$'' [] True False)
   \<and> evaluateExpression_aux True []
       (ExpressionNode ''a'' [(CHR ''$'', ExpressionNode ''$'' [] True False)] False True)
       False = True"
  using anchor_exactness
          [of True "ExpressionNode ''a'' [(CHR ''$'', ExpressionNode ''$'' [] False True)]
                       False False" "ExpressionNode ''$'' [] False True" True True]
        anchor_exactness
          [of True "ExpressionNode ''a'' [(CHR ''$'', ExpressionNode ''$'' [] True False)]
                       False True" "ExpressionNode ''$'' [] True False" True False]
  by simp

subsection \<open>The empty path\<close>

text \<open>
  Claim C6 as stated fails: after \<open>disallow("$")\<close> on a matcher with the default
  \<open>True\<close>, the empty path does not fall through to the base case; the anchor check at the
  root finds the flagged \<open>$\<close> child and the result is \<open>False\<close>, not the default.
\<close>

theorem empty_path_anchor_counterexample:
  "evaluateExpression (insertAll (new_ExpressionTree True) [(''$'', ''disallow'')]) []
     \<noteq> DEFAULT_PERMISSION (insertAll (new_ExpressionTree True) [(''$'', ''disallow'')])"
  by code_simp


text \<open>
  Claim C6, amended. For every matcher built from a new one by a finite sequence of
  insertions, the root's own flags are never set and the default is the one given at
  construction; \<open>isAllowed("")\<close> returns the default unless the pattern \<open>$\<close> was
  inserted as allow or as disallow, in which case the anchor check at the root answers:
  \<open>True\<close> when it was inserted as allow, \<open>False\<close> when only as disallow.
\<close>

theorem empty_path_default:
  "\<not> allowFlag (root (insertAll (new_ExpressionTree dp) ops))
   \<and> \<not> disallowFlag (root (insertAll (new_ExpressionTree dp) ops))
   \<and> DEFAULT_PERMISSION (insertAll (new_ExpressionTree dp) ops) = dp
   \<and> evaluateExpression (insertAll (new_ExpressionTree dp) ops) [] =
       (if (''$'', ''allow'') \<in> set ops then True
        else if (''$'', ''disallow'') \<in> set ops then False
        else dp)"
proof -
  let ?t = "insertAll (new_ExpressionTree dp) ops"
  have f: "flagsAt (root ?t) q =
     (q \<noteq> [] \<and> (q, ''allow'') \<in> set ops, q \<noteq> [] \<and> (q, ''disallow'') \<in> set ops)" for q
    unfolding flagsAt_insertAll by (simp add: new_ExpressionTree_def flagsAt_new)
  have top: "\<not> allowFlag (root ?t)" "\<not> disallowFlag (root ?t)"
    using f [of "[]"] by simp_all
  have d: "DEFAULT_PERMISSION ?t = dp"
    by (simp add: DEFAULT_PERMISSION_insertAll new_ExpressionTree_def)
  have "evaluateExpression ?t [] =
       (if (''$'', ''allow'') \<in> set ops then True
        else if (''$'', ''disallow'') \<in> set ops then False
        else dp)"
  proof -
    have "evaluateExpression_aux dp [] (root ?t) dp =
            (if fst (flagsAt (root ?t) ''$'') then True
             else if snd (flagsAt (root ?t) ''$'') then False else dp)"
      unfolding aux_Nil_flags by (simp only: top if_False if_cancel)
    then show ?thesis
      unfolding evaluateExpression_def d f by simp
  qed
  with top d show ?thesis by blast
qed


subsection \<open>An invalid rule kind\<close>

text \<open>
  Claim C7. When \<open>addExpression\<close> is called with a rule type that is neither \<open>allow\<close>
  nor \<open>disallow\<close> and a non-empty pattern, exactly one diagnostic is written (by
  \<open>addPath\<close> as well, which only delegates); every
  prefix of the pattern leads to a node of the trie afterwards; the pair of flags found
  along any string is what it was before (nodes that were there keep their flags, the
  new ones carry none); the default is unchanged; and after any further sequence of
  insertions every evaluation gives the result it gives when the call is left out.
\<close>

theorem invalid_rule_kind_is_noop:
  assumes "ruleType \<noteq> ''allow''" and "ruleType \<noteq> ''disallow''" and "expression \<noteq> []"
  shows "snd (addExpression t expression ruleType) = [RuleTypeNotDefined]
   \<and> snd (addPath P expression ruleType) = [RuleTypeNotDefined]
   \<and> (\<forall>k\<le>length expression.
        nodeAt (root (fst (addExpression t expression ruleType))) (take k expression) \<noteq> None)
   \<and> (\<forall>q. flagsAt (root (fst (addExpression t expression ruleType))) q = flagsAt (root t) q)
   \<and> DEFAULT_PERMISSION (fst (addExpression t expression ruleType)) = DEFAULT_PERMISSION t
   \<and> (\<forall>ops path.
        evaluateExpression (insertAll (fst (addExpression t expression ruleType)) ops) path
          = evaluateExpression (insertAll t ops) path)"
proof -
  let ?t' = "fst (addExpression t expression ruleType)"
  have log: "snd (addExpression t expression ruleType) = [RuleTypeNotDefined]"
    using assms by (simp add: snd_addExpression snd_addLoop)
  have log': "snd (addPath P expression ruleType) = [RuleTypeNotDefined]"
    using assms by (simp add: snd_addPath snd_addExpression snd_addLoop)
  have nodes: "\<forall>k\<le>length expression. nodeAt (root ?t') (take k expression) \<noteq> None"
    by (simp add: addExpression_fst nodeAt_addLoop)
  have flags: "\<forall>q. flagsAt (root ?t') q = flagsAt (root t) q"
    using assms by (simp add: addExpression_fst flagsAt_addLoop ruleUpd_def)
  have dp: "DEFAULT_PERMISSION ?t' = DEFAULT_PERMISSION t"
    by (simp add: addExpression_fst)
  have later: "evaluateExpression (insertAll ?t' ops) path
                 = evaluateExpression (insertAll t ops) path" for ops path
    by (rule eval_tree_cong)
       (simp_all add: DEFAULT_PERMISSION_insertAll dp flagsAt_insertAll flags)
  from log log' nodes flags dp later show ?thesis by blast
qed

theorem invalid_rule_kind_is_noop_witness:
  "''maybe'' \<noteq> ''allow'' \<and> ''maybe'' \<noteq> ''disallow'' \<and> ''/a'' \<noteq> []
   \<and> snd (addExpression (new_ExpressionTree True) ''/a'' ''maybe'') = [RuleTypeNotDefined]
   \<and> nodeAt (root (fst (addExpression (new_ExpressionTree True) ''/a'' ''maybe''))) ''/a''
       \<noteq> None
   \<and> flagsAt (root (fst (addExpression (new_ExpressionTree True) ''/a'' ''maybe''))) ''/a''
       = (False, False)
   \<and> evaluateExpression
       (insertAll (fst (addExpression (new_ExpressionTree True) ''/a'' ''maybe''))
          [(''/a'', ''disallow'')]) ''/a/b''
     = evaluateExpression (insertAll (new_ExpressionTree True) [(''/a'', ''disallow'')]) ''/a/b''"
proof -
  let ?t' = "fst (addExpression (new_ExpressionTree True) ''/a'' ''maybe'')"
  have h: "''maybe'' \<noteq> ''allow''" "''maybe'' \<noteq> ''disallow''" "''/a'' \<noteq> []"
    by simp_all
  note r = invalid_rule_kind_is_noop [OF h, of "new_ExpressionTree True" new_Permissions]
  have log: "snd (addExpression (new_ExpressionTree True) ''/a'' ''maybe'') = [RuleTypeNotDefined]"
    using r by (rule conjunct1)
  have "nodeAt (root ?t') (take (length ''/a'') ''/a'') \<noteq> None"
    using r le_refl by blast
  then have node: "nodeAt (root ?t') ''/a'' \<noteq> None"
    unfolding take_all [OF order_refl] .
  have "flagsAt (root ?t') ''/a'' = flagsAt (root (new_ExpressionTree True)) ''/a''"
    using r by blast
  then have flags: "flagsAt (root ?t') ''/a'' = (False, False)"
    by (simp only: new_ExpressionTree_def flagsAt_new ExpressionTree.simps)
  have later: "evaluateExpression (insertAll ?t' [(''/a'', ''disallow'')]) ''/a/b''
     = evaluateExpression (insertAll (new_ExpressionTree True) [(''/a'', ''disallow'')]) ''/a/b''"
    using r by blast
  from h log node flags later show ?thesis
    by (intro conjI)
qed

subsection \<open>Order of insertion\<close>

text \<open>
  Claim C8. Two sequences of insertions that are permutations of each other, applied to
  the same matcher (a new one with some default, in particular), give matchers on which
  every path evaluates to the same result.
\<close>

theorem insertion_order_independent:
  "mset ops1 = mset ops2 \<Longrightarrow>
   evaluateExpression (insertAll t ops1) path = evaluateExpression (insertAll t ops2) path"
proof -
  assume "mset ops1 = mset ops2"
  then have "set ops1 = set ops2" by (rule mset_eq_setD)
  then have "\<forall>q. flagsAt (root (insertAll t ops1)) q = flagsAt (root (insertAll t ops2)) q"
    by (simp add: flagsAt_insertAll)
  then show ?thesis
    by (intro eval_tree_cong) (simp_all add: DEFAULT_PERMISSION_insertAll)
qed

theorem insertion_order_independent_witness:
  "mset [(''/a'', ''disallow''), (''/a/b'', ''allow'')]
     = mset [(''/a/b'', ''allow''), (''/a'', ''disallow'')]
   \<and> evaluateExpression
       (insertAll (new_ExpressionTree False) [(''/a'', ''disallow''), (''/a/b'', ''allow'')])
       ''/a/b''
     = evaluateExpression
       (insertAll (new_ExpressionTree False) [(''/a/b'', ''allow''), (''/a'', ''disallow'')])
       ''/a/b''"
proof -
  have h: "mset [(''/a'', ''disallow''), (''/a/b'', ''allow'')]
     = mset [(''/a/b'', ''allow''), (''/a'', ''disallow'')]"
    by simp
  from h insertion_order_independent [OF h, of "new_ExpressionTree False" "''/a/b''"]
  show ?thesis by (rule conjI)
qed

subsection \<open>Evaluation changes nothing\<close>

text \<open>
  Claim C9. An \<open>isAllowed\<close> call leaves the instance (root, every node's children and
  flags, both defaults) as it was; so does any number of them. The instance at the end
  of a run of calls is the one reached by its \<open>addPath\<close> calls alone, and putting
  \<open>isAllowed\<close> calls between two runs changes neither the instance reached nor any
  result of the calls around them.
\<close>

theorem evaluation_read_only:
  "fst (perform P (IsAllowed path)) = P
   \<and> fst (run P (map IsAllowed paths)) = P
   \<and> fst (run P calls) = fst (run P (filter isAddPath calls))
   \<and> run P (xs @ map IsAllowed paths @ ys) =
       (fst (run P (xs @ ys)),
        snd (run P xs) @ map (\<lambda>q. Some (isAllowed (fst (run P xs)) q)) paths
          @ snd (run (fst (run P xs)) ys))"
proof (intro conjI)
  show "fst (perform P (IsAllowed path)) = P" by simp
  show "fst (run P (map IsAllowed paths)) = P" by (simp add: run_queries)
  show "fst (run P calls) = fst (run P (filter isAddPath calls))" by (rule run_filter)
  show "run P (xs @ map IsAllowed paths @ ys) =
       (fst (run P (xs @ ys)),
        snd (run P xs) @ map (\<lambda>q. Some (isAllowed (fst (run P xs)) q)) paths
          @ snd (run (fst (run P xs)) ys))"
    by (simp add: run_append [of P xs] run_append [of _ "map IsAllowed paths"] run_queries)
qed


end
